theory Spec2Isabelle
  imports Main "HOL-Library.AList"
begin

section \<open>Data model\<close>

text \<open>
  The errors the readers raise.  The three misuse errors carry the messages
  \<^verbatim>\<open>File is already open\<close>, \<^verbatim>\<open>File is not open. Call open() first\<close> and
  \<^verbatim>\<open>Line number must be greater than 0\<close>; \<open>IteratorNotInitialized\<close> is
  \<^verbatim>\<open>Line iterator is not initialized\<close>; \<open>IOFault\<close> is whatever the underlying
  line iterator throws.
\<close>

datatype error =
    AlreadyOpen
  | NotOpen
  | IteratorNotInitialized
  | InvalidLineNumber
  | IOFault string

text \<open>
  The stream behind \<^verbatim>\<open>filePath\<close> is a collaborator (node's \<^verbatim>\<open>fs\<close> and
  \<^verbatim>\<open>readline\<close>), so it is a parameter of the model: the list of things the async
  iterator does on successive \<^verbatim>\<open>next()\<close> calls.  \<open>Line v\<close> is
  \<^verbatim>\<open>{value: v, done: false}\<close>, \<open>Fault e\<close> is a rejected promise, and the end
  of the list is \<^verbatim>\<open>{done: true}\<close>.
\<close>

datatype event = Line string | Fault string

datatype interface = Interface

text \<open>
  The fields of \<^verbatim>\<open>LineReader\<close>.  \<open>source\<close> stands for what \<^verbatim>\<open>filePath\<close> and
  \<^verbatim>\<open>options\<close> designate; \<open>rl\<close> is the readline interface or \<^verbatim>\<open>null\<close>;
  \<open>lineIterator\<close> is the cursor, holding the events still to come.
\<close>

record reader =
  source :: "event list"
  rl :: "interface option"
  lineIterator :: "event list option"
  isClosed :: bool
  currentLine :: "string option"

text \<open>
  \<^verbatim>\<open>EnhancedLineReader extends LineReader\<close>.  The cache is a JavaScript \<^verbatim>\<open>Map\<close>:
  an insertion-ordered list of key/value pairs with distinct keys, where
  \<^verbatim>\<open>set\<close> overwrites in place or appends (\<open>AList.update\<close>), \<^verbatim>\<open>delete\<close> is
  \<open>AList.delete\<close>, \<^verbatim>\<open>get\<close> is \<open>map_of\<close> and \<^verbatim>\<open>size\<close> is the length.
\<close>

record enhanced = reader +
  cache :: "(int \<times> string) list"
  cacheSize :: int
  linePointer :: int

section \<open>LineReader\<close>

definition LineReader :: "event list \<Rightarrow> reader" where
  "LineReader src =
     \<lparr>source = src, rl = None, lineIterator = None, isClosed = False, currentLine = None\<rparr>"

text \<open>\<^verbatim>\<open>open()\<close> (the name \<open>open\<close> is an Isabelle keyword).\<close>

definition open_reader :: "'a reader_scheme \<Rightarrow> (error + unit) \<times> 'a reader_scheme" where
  "open_reader r =
     (if rl r \<noteq> None then (Inl AlreadyOpen, r)
      else (Inr (), r\<lparr>rl := Some Interface, lineIterator := Some (source r)\<rparr>))"

definition close :: "'a reader_scheme \<Rightarrow> 'a reader_scheme" where
  "close r =
     (if isClosed r then r
      else r\<lparr>isClosed := True, rl := None, lineIterator := None\<rparr>)"

definition readLine :: "'a reader_scheme \<Rightarrow> (error + string option) \<times> 'a reader_scheme" where
  "readLine r =
     (if rl r = None then (Inl NotOpen, r)
      else if isClosed r then (Inr None, r)
      else (case lineIterator r of
              None \<Rightarrow> (Inl IteratorNotInitialized, r)
            | Some [] \<Rightarrow> (Inr None, close r)
            | Some (Line v # rest) \<Rightarrow>
                (Inr (Some v), r\<lparr>lineIterator := Some rest, currentLine := Some v\<rparr>)
            | Some (Fault e # rest) \<Rightarrow> (Inl (IOFault e), close r)))"

text \<open>
  \<^verbatim>\<open>skipLines\<close> and \<^verbatim>\<open>readLines\<close> call \<^verbatim>\<open>this.readLine()\<close>, which an
  \<^verbatim>\<open>EnhancedLineReader\<close> overrides; the method that is dispatched to is the
  parameter \<open>rd\<close>.  \<open>count\<close> is a JavaScript number, modelled on the integers.
  The loop variables are those of the source.
\<close>

function skipLines_loop ::
  "('s \<Rightarrow> (error + string option) \<times> 's) \<Rightarrow> int \<Rightarrow> int \<Rightarrow> int \<Rightarrow> 's \<Rightarrow> (error + int) \<times> 's"
where
  "skipLines_loop rd count i skipped s =
     (if i < count then
        (case rd s of
           (Inl e, s') \<Rightarrow> (Inl e, s')
         | (Inr None, s') \<Rightarrow> (Inr skipped, s')
         | (Inr (Some line), s') \<Rightarrow> skipLines_loop rd count (i + 1) (skipped + 1) s')
      else (Inr skipped, s))"
  by pat_completeness auto
termination
  by (relation "measure (\<lambda>(rd, count, i, skipped, s). nat (count - i))") auto

definition skipLines_with ::
  "('s \<Rightarrow> (error + string option) \<times> 's) \<Rightarrow> int \<Rightarrow> 's \<Rightarrow> (error + int) \<times> 's"
where
  "skipLines_with rd count s = skipLines_loop rd count 0 0 s"

function readLines_loop ::
  "('s \<Rightarrow> (error + string option) \<times> 's) \<Rightarrow> int \<Rightarrow> int \<Rightarrow> string list \<Rightarrow> 's
     \<Rightarrow> (error + string list) \<times> 's"
where
  "readLines_loop rd count i lines s =
     (if i < count then
        (case rd s of
           (Inl e, s') \<Rightarrow> (Inl e, s')
         | (Inr None, s') \<Rightarrow> (Inr lines, s')
         | (Inr (Some line), s') \<Rightarrow> readLines_loop rd count (i + 1) (lines @ [line]) s')
      else (Inr lines, s))"
  by pat_completeness auto
termination
  by (relation "measure (\<lambda>(rd, count, i, lines, s). nat (count - i))") auto

definition readLines_with ::
  "('s \<Rightarrow> (error + string option) \<times> 's) \<Rightarrow> int \<Rightarrow> 's \<Rightarrow> (error + string list) \<times> 's"
where
  "readLines_with rd count s = readLines_loop rd count 0 [] s"

definition skipLines :: "int \<Rightarrow> 'a reader_scheme \<Rightarrow> (error + int) \<times> 'a reader_scheme" where
  "skipLines count r = skipLines_with readLine count r"

definition readLines :: "int \<Rightarrow> 'a reader_scheme \<Rightarrow> (error + string list) \<times> 'a reader_scheme" where
  "readLines count r = readLines_with readLine count r"

text \<open>\<^verbatim>\<open>restart()\<close>: close, clear the flag, open (whose error, if any, propagates).\<close>

definition restart :: "'a reader_scheme \<Rightarrow> (error + unit) \<times> 'a reader_scheme" where
  "restart r = open_reader ((close r)\<lparr>isClosed := False\<rparr>)"

definition isEOF :: "'a reader_scheme \<Rightarrow> bool" where
  "isEOF r = isClosed r"

text \<open>
  A caller that calls \<^verbatim>\<open>readLine()\<close> \<open>n\<close> times in a row, keeping every
  outcome (a raised error is caught and recorded, as a test harness does).
\<close>

fun readLine_times :: "nat \<Rightarrow> 'a reader_scheme \<Rightarrow> (error + string option) list \<times> 'a reader_scheme" where
  "readLine_times 0 r = ([], r)"
| "readLine_times (Suc n) r =
     (case readLine r of (x, r') \<Rightarrow>
        (case readLine_times n r' of (xs, r'') \<Rightarrow> (x # xs, r'')))"

text \<open>
  The generator \<^verbatim>\<open>readBatches()\<close> of \<^verbatim>\<open>withBatchProcessor(reader, batchSize)\<close>,
  driven to completion by its consumer: the batches it yields in order, how it ends
  (\<open>None\<close> for a normal return, \<open>Some e\<close> when \<^verbatim>\<open>readLines\<close> raised \<open>e\<close>)
  and the reader it leaves.  The measure of the loop is the number of events the
  cursor still holds.
\<close>

definition remaining :: "'a reader_scheme \<Rightarrow> nat" where
  "remaining r = (case lineIterator r of None \<Rightarrow> 0 | Some evs \<Rightarrow> length evs)"

function readBatches ::
  "int \<Rightarrow> 'a reader_scheme \<Rightarrow> (string list list \<times> error option) \<times> 'a reader_scheme"
where
  "readBatches batchSize r =
     (if \<not> isEOF r then
        (case readLines batchSize r of
           (Inl e, r') \<Rightarrow> (([], Some e), r')
         | (Inr batch, r') \<Rightarrow>
             if length batch = 0 then (([], None), r')
             else (case readBatches batchSize r' of
                     ((bs, fin), r'') \<Rightarrow> ((batch # bs, fin), r'')))
      else (([], None), r))"
  by pat_completeness auto
termination
proof (relation "measure (\<lambda>(batchSize, r). remaining r)")
  show "wf (measure (\<lambda>(batchSize :: int, r :: 'a reader_scheme). remaining r))"
    by simp
next
  have step: "remaining (snd (readLine r)) \<le> remaining r \<and>
      (\<forall>l. fst (readLine r) = Inr (Some l) \<longrightarrow> Suc (remaining (snd (readLine r))) \<le> remaining r)"
    for r :: "'a reader_scheme"
    by (auto simp: readLine_def remaining_def close_def split: option.splits list.splits event.splits)
  have loop: "readLines_loop rd c i acc r = (Inr out, r') \<Longrightarrow> rd = readLine \<Longrightarrow>
      length out + remaining r' \<le> length acc + remaining r"
    for rd c i acc out and r r' :: "'a reader_scheme"
  proof (induction rd c i acc r rule: readLines_loop.induct)
    case (1 rd count i lines s)
    show ?case
    proof (cases "i < count")
      case False
      with "1.prems" show ?thesis by simp
    next
      case True
      obtain x s' where rd: "readLine s = (x, s')" by (cases "readLine s")
      from step [of s] rd have le: "remaining s' \<le> remaining s"
        and lt: "\<And>l. x = Inr (Some l) \<Longrightarrow> Suc (remaining s') \<le> remaining s" by auto
      show ?thesis
      proof (cases x)
        case (Inl e)
        with True rd "1.prems" show ?thesis by simp
      next
        case (Inr v)
        show ?thesis
        proof (cases v)
          case None
          with Inr True rd "1.prems" le show ?thesis by auto
        next
          case (Some l)
          with Inr True rd "1.prems" have
            "readLines_loop rd count (i + 1) (lines @ [l]) s' = (Inr out, r')" by simp
          from "1.IH" [OF True _ _ _ this] Inr Some rd "1.prems"(2)
          have "length out + remaining r' \<le> length (lines @ [l]) + remaining s'" by simp
          with lt [of l] Inr Some show ?thesis by simp
        qed
      qed
    qed
  qed
  fix batchSize :: int and r :: "'a reader_scheme" and x y batch
  assume "\<not> isEOF r" "(x, y) = readLines batchSize r" "x = Inr batch" "length batch \<noteq> 0"
  then have "readLines_loop readLine batchSize 0 [] r = (Inr batch, y)"
    by (simp add: readLines_def readLines_with_def)
  from loop [OF this refl] \<open>length batch \<noteq> 0\<close>
  show "((batchSize, y), batchSize, r) \<in> measure (\<lambda>(batchSize, r). remaining r)"
    by (cases batch) auto
qed

declare readBatches.simps [simp del]

section \<open>EnhancedLineReader\<close>

text \<open>
  The constructor: \<^verbatim>\<open>options.cacheSize || 1000\<close> takes the default when the option
  is absent or is 0.
\<close>

definition EnhancedLineReader :: "event list \<Rightarrow> int option \<Rightarrow> enhanced" where
  "EnhancedLineReader src cacheSizeOption =
     \<lparr>source = src, rl = None, lineIterator = None, isClosed = False, currentLine = None,
      cache = [],
      cacheSize = (case cacheSizeOption of None \<Rightarrow> 1000 | Some c \<Rightarrow> if c = 0 then 1000 else c),
      linePointer = 0\<rparr>"

text \<open>\<^verbatim>\<open>keys.slice(0, end)\<close>: a negative \<open>end\<close> counts from the end of the array.\<close>

definition slice0 :: "'a list \<Rightarrow> int \<Rightarrow> 'a list" where
  "slice0 xs e =
     (if e < 0 then take (nat (max (int (length xs) + e) 0)) xs else take (nat e) xs)"

definition manageCache :: "enhanced \<Rightarrow> enhanced" where
  "manageCache s =
     (if int (length (cache s)) > cacheSize s then
        (let keys = sort (map fst (cache s));
             toRemove = slice0 keys (cacheSize s div 2)
         in s\<lparr>cache := fold AList.delete toRemove (cache s)\<rparr>)
      else s)"

text \<open>The override of \<^verbatim>\<open>readLine\<close>; \<open>readLine\<close> is \<^verbatim>\<open>super.readLine()\<close>.\<close>

definition enhanced_readLine :: "enhanced \<Rightarrow> (error + string option) \<times> enhanced" where
  "enhanced_readLine s =
     (case readLine s of
        (Inl e, s') \<Rightarrow> (Inl e, s')
      | (Inr None, s') \<Rightarrow> (Inr None, s')
      | (Inr (Some line), s') \<Rightarrow>
          (let s1 = s'\<lparr>linePointer := linePointer s' + 1\<rparr>;
               s2 = s1\<lparr>cache := AList.update (linePointer s1) line (cache s1)\<rparr>
           in (Inr (Some line), manageCache s2)))"

text \<open>The inherited \<^verbatim>\<open>skipLines\<close> on an enhanced reader reaches the override.\<close>

definition enhanced_skipLines :: "int \<Rightarrow> enhanced \<Rightarrow> (error + int) \<times> enhanced" where
  "enhanced_skipLines count s = skipLines_with enhanced_readLine count s"

definition readLineAt :: "int \<Rightarrow> enhanced \<Rightarrow> (error + string option) \<times> enhanced" where
  "readLineAt lineNumber s =
     (if lineNumber < 1 then (Inl InvalidLineNumber, s)
      else if lineNumber \<in> set (map fst (cache s)) then (Inr (map_of (cache s) lineNumber), s)
      else
        (case (if lineNumber \<le> linePointer s
               then (case restart s of
                       (Inl e, s') \<Rightarrow> (Inl e, s')
                     | (Inr u, s') \<Rightarrow> (Inr u, s'\<lparr>linePointer := 0\<rparr>))
               else (Inr (), s)) of
           (Inl e, s1) \<Rightarrow> (Inl e, s1)
         | (Inr u, s1) \<Rightarrow>
             (case enhanced_skipLines (lineNumber - linePointer s1 - 1) s1 of
                (Inl e, s2) \<Rightarrow> (Inl e, s2)
              | (Inr n, s2) \<Rightarrow>
                  (case enhanced_readLine s2 of
                     (Inl e, s3) \<Rightarrow> (Inl e, s3)
                   | (Inr None, s3) \<Rightarrow> (Inr None, s3)
                   | (Inr (Some line), s3) \<Rightarrow>
                       (Inr (Some line),
                        manageCache (s3\<lparr>cache := AList.update lineNumber line (cache s3)\<rparr>))))))"

definition getCurrentLineNumber :: "enhanced \<Rightarrow> int" where
  "getCurrentLineNumber s = linePointer s"

text \<open>
  A caller's program over an indexed reader: any sequence of \<^verbatim>\<open>readLine()\<close> and
  \<^verbatim>\<open>readLineAt(n)\<close> calls, each outcome (value or raised error) dropped, the reader
  kept.
\<close>

datatype call = ReadLine | ReadLineAt int

fun run_call :: "call \<Rightarrow> enhanced \<Rightarrow> enhanced" where
  "run_call ReadLine s = snd (enhanced_readLine s)"
| "run_call (ReadLineAt n) s = snd (readLineAt n s)"

definition run_calls :: "call list \<Rightarrow> enhanced \<Rightarrow> enhanced" where
  "run_calls cs s = fold run_call cs s"

text \<open>The file of the test suite of \<^verbatim>\<open>EnhancedLineReader\<close>, one line per element.\<close>

definition TEST_LINES :: "string list" where
  "TEST_LINES = [''Alpha'', ''Bravo'', ''Charlie'', ''Delta'', ''Echo'']"

section \<open>Sessions and invariants\<close>

text \<open>
  Every cached entry is a line of the file \<open>ls\<close> under its 1-based number.
\<close>

definition cache_agrees :: "string list \<Rightarrow> (int \<times> string) list \<Rightarrow> bool" where
  "cache_agrees ls c =
     (\<forall>(k, v) \<in> set c. 1 \<le> k \<and> k \<le> int (length ls) \<and> v = ls ! nat (k - 1))"

text \<open>
  The states an indexed reader over the fault-free file \<open>ls\<close> passes through: the
  cache agrees with the file; while the handle is held the cursor stands after
  \<open>linePointer\<close> lines; once the handle is released (which only exhaustion does
  here) the pointer is the number of lines of the file.
\<close>

definition consistent :: "string list \<Rightarrow> enhanced \<Rightarrow> bool" where
  "consistent ls s =
     (source s = map Line ls \<and> cache_agrees ls (cache s) \<and>
      0 \<le> linePointer s \<and> linePointer s \<le> int (length ls) \<and>
      (if rl s = None then linePointer s = int (length ls)
       else \<not> isClosed s \<and>
            lineIterator s = Some (map Line (drop (nat (linePointer s)) ls))))"

text \<open>
  The capacity bound on the cache: the configured capacity is \<open>c\<close>, the keys are
  distinct (as those of a \<^verbatim>\<open>Map\<close> are) and there are at most \<open>c\<close> of them.
\<close>

definition cache_bounded :: "int \<Rightarrow> enhanced \<Rightarrow> bool" where
  "cache_bounded c s =
     (cacheSize s = c \<and> distinct (map fst (cache s)) \<and> int (length (cache s)) \<le> c)"

text \<open>An open session whose cursor will deliver exactly the lines \<open>ls\<close> and then end.\<close>

definition delivering :: "string list \<Rightarrow> 'a reader_scheme \<Rightarrow> bool" where
  "delivering ls r =
     (rl r \<noteq> None \<and> \<not> isClosed r \<and> lineIterator r = Some (map Line ls))"

section \<open>Basic facts about the sequential reader\<close>

lemma readLine_not_open: "rl r = None \<Longrightarrow> readLine r = (Inl NotOpen, r)"
  by (simp add: readLine_def)

lemma readLine_delivering_Nil: "delivering [] r \<Longrightarrow> readLine r = (Inr None, close r)"
  by (simp add: readLine_def delivering_def)

lemma readLine_delivering_Cons:
  "delivering (l # ls) r \<Longrightarrow>
     readLine r = (Inr (Some l), r\<lparr>lineIterator := Some (map Line ls), currentLine := Some l\<rparr>)"
  by (simp add: readLine_def delivering_def)

lemma delivering_step:
  "delivering (l # ls) r \<Longrightarrow>
     delivering ls (r\<lparr>lineIterator := Some (map Line ls), currentLine := Some l\<rparr>)"
  by (simp add: delivering_def)

lemma close_released: "\<not> isClosed r \<Longrightarrow> rl (close r) = None \<and> isClosed (close r) \<and> lineIterator (close r) = None"
  by (simp add: close_def)

lemma delivering_open: "delivering ls (snd (open_reader (LineReader (map Line ls))))"
  by (simp add: delivering_def open_reader_def LineReader_def)

lemma readLine_times_not_open:
  "rl r = None \<Longrightarrow> readLine_times n r = (replicate n (Inl NotOpen), r)"
  by (induction n) (simp_all add: readLine_not_open)

lemma rl_close_delivering: "delivering ls r \<Longrightarrow> rl (close r) = None \<and> isClosed (close r)"
  by (simp add: delivering_def close_def)

lemma readLine_times_delivering:
  "delivering ls r \<Longrightarrow>
     \<exists>r'. readLine_times (Suc (length ls)) r = (map (\<lambda>l. Inr (Some l)) ls @ [Inr None], r') \<and>
          isClosed r' \<and> rl r' = None"
proof (induction ls arbitrary: r)
  case Nil
  then show ?case
    by (simp add: readLine_delivering_Nil rl_close_delivering)
next
  case (Cons l ls)
  let ?r' = "r\<lparr>lineIterator := Some (map Line ls), currentLine := Some l\<rparr>"
  have rd: "readLine r = (Inr (Some l), ?r')"
    using Cons.prems by (rule readLine_delivering_Cons)
  have "delivering ls ?r'"
    using Cons.prems by (rule delivering_step)
  from Cons.IH [OF this] obtain r' where
    r': "readLine_times (Suc (length ls)) ?r' = (map (\<lambda>l. Inr (Some l)) ls @ [Inr None], r')"
    and c: "isClosed r'" "rl r' = None" by blast
  have "readLine_times (Suc (length (l # ls))) r
          = (map (\<lambda>l. Inr (Some l)) (l # ls) @ [Inr None], r')"
    using rd r'
    by (simp del: readLine_times.simps add: readLine_times.simps(2) [of "Suc (length ls)"])
  with c show ?case by blast
qed

lemma skipLines_loop_delivering:
  "delivering ls r \<Longrightarrow> i \<le> count \<Longrightarrow>
     \<exists>r1. skipLines_loop readLine count i sk r
            = (Inr (sk + min (count - i) (int (length ls))), r1) \<and>
          readLine r1 = (last (fst (readLine_times (nat (count - i) + 1) r)),
                         snd (readLine_times (nat (count - i) + 1) r))"
proof (induction ls arbitrary: r i sk)
  case Nil
  show ?case
  proof (cases "i < count")
    case False
    with Nil.prems have "i = count" by simp
    then show ?thesis by (simp add: case_prod_beta)
  next
    case True
    then obtain n where n: "nat (count - i) = Suc n"
      by (cases "nat (count - i)") auto
    have c: "rl (close r) = None" using Nil.prems(1) by (simp add: rl_close_delivering)
    from True n c show ?thesis
      by (simp add: readLine_delivering_Nil [OF Nil.prems(1)] readLine_not_open
          readLine_times_not_open)
  qed
next
  case (Cons l ls)
  show ?case
  proof (cases "i < count")
    case False
    with Cons.prems have "i = count" by simp
    then show ?thesis by (simp add: case_prod_beta)
  next
    case True
    let ?r' = "r\<lparr>lineIterator := Some (map Line ls), currentLine := Some l\<rparr>"
    have rd: "readLine r = (Inr (Some l), ?r')"
      using Cons.prems(1) by (rule readLine_delivering_Cons)
    have d: "delivering ls ?r'"
      using Cons.prems(1) by (rule delivering_step)
    from True have le: "i + 1 \<le> count" by simp
    from True have n: "nat (count - i) = Suc (nat (count - (i + 1)))" by simp
    from Cons.IH [OF d le, of "sk + 1"] obtain r1 where
      r1: "skipLines_loop readLine count (i + 1) (sk + 1) ?r'
           = (Inr (sk + 1 + min (count - (i + 1)) (int (length ls))), r1)"
      and rl1: "readLine r1 = (last (fst (readLine_times (nat (count - (i + 1)) + 1) ?r')),
                         snd (readLine_times (nat (count - (i + 1)) + 1) ?r'))"
      by blast
    have "skipLines_loop readLine count i sk r
            = (Inr (sk + min (count - i) (int (length (l # ls)))), r1)"
      using True rd r1 by (simp add: min_def)
    moreover have "readLine r1 = (last (fst (readLine_times (nat (count - i) + 1) r)),
                         snd (readLine_times (nat (count - i) + 1) r))"
      using rl1 rd unfolding n by (simp add: case_prod_beta)
    ultimately show ?thesis by blast
  qed
qed

lemma readLines_loop_delivering:
  "delivering ls r \<Longrightarrow> i \<le> count \<Longrightarrow>
     \<exists>r1. readLines_loop readLine count i acc r
            = (Inr (acc @ take (nat (count - i)) ls), r1) \<and>
          (if nat (count - i) \<le> length ls then delivering (drop (nat (count - i)) ls) r1
           else isClosed r1)"
proof (induction ls arbitrary: r i acc)
  case Nil
  show ?case
  proof (cases "i < count")
    case False
    with Nil.prems show ?thesis by simp
  next
    case True
    with Nil.prems show ?thesis
      by (simp add: readLine_delivering_Nil rl_close_delivering)
  qed
next
  case (Cons l ls)
  show ?case
  proof (cases "i < count")
    case False
    with Cons.prems show ?thesis by simp
  next
    case True
    let ?r' = "r\<lparr>lineIterator := Some (map Line ls), currentLine := Some l\<rparr>"
    have rd: "readLine r = (Inr (Some l), ?r')"
      using Cons.prems(1) by (rule readLine_delivering_Cons)
    have d: "delivering ls ?r'"
      using Cons.prems(1) by (rule delivering_step)
    from True have le: "i + 1 \<le> count" by simp
    from True have n: "nat (count - i) = Suc (nat (count - (i + 1)))" by simp
    from Cons.IH [OF d le, of "acc @ [l]"] obtain r1 where
      r1: "readLines_loop readLine count (i + 1) (acc @ [l]) ?r'
           = (Inr ((acc @ [l]) @ take (nat (count - (i + 1))) ls), r1)"
      and st: "if nat (count - (i + 1)) \<le> length ls
               then delivering (drop (nat (count - (i + 1))) ls) r1 else isClosed r1"
      by blast
    have "readLines_loop readLine count i acc r
            = (Inr (acc @ take (nat (count - i)) (l # ls)), r1)"
      using True rd r1 unfolding n by simp
    moreover have "if nat (count - i) \<le> length (l # ls)
        then delivering (drop (nat (count - i)) (l # ls)) r1 else isClosed r1"
      using st unfolding n by simp
    ultimately show ?thesis by blast
  qed
qed

lemma readLines_delivering:
  "delivering ls r \<Longrightarrow> 0 \<le> b \<Longrightarrow>
     \<exists>r1. readLines b r = (Inr (take (nat b) ls), r1) \<and>
          (if nat b \<le> length ls then delivering (drop (nat b) ls) r1 else isClosed r1)"
  using readLines_loop_delivering [of ls r 0 b "[]"]
  by (auto simp add: readLines_def readLines_with_def simp del: readLines_loop.simps)

lemma readBatches_closed: "isClosed r \<Longrightarrow> readBatches b r = (([], None), r)"
  by (subst readBatches.simps) (simp add: isEOF_def)

lemma readBatches_delivering:
  "delivering ls r \<Longrightarrow> 1 \<le> b \<Longrightarrow>
     \<exists>bs r'. readBatches b r = ((bs, None), r') \<and> isEOF r' \<and> concat bs = ls \<and>
       int (length bs) = (int (length ls) + b - 1) div b \<and>
       (\<forall>i. Suc i < length bs \<longrightarrow> int (length (bs ! i)) = b) \<and>
       (\<forall>i. i < length bs \<longrightarrow> bs ! i \<noteq> [] \<and> int (length (bs ! i)) \<le> b)"
proof (induction "length ls" arbitrary: ls r rule: less_induct)
  case less
  from less.prems have opn: "\<not> isEOF r" by (simp add: delivering_def isEOF_def)
  from less.prems(2) have b0: "0 \<le> b" by simp
  from readLines_delivering [OF less.prems(1) b0] obtain r1 where
    rl: "readLines b r = (Inr (take (nat b) ls), r1)"
    and st: "if nat b \<le> length ls then delivering (drop (nat b) ls) r1 else isClosed r1"
    by blast
  show ?case
  proof (cases "ls = []")
    case True
    with st less.prems(2) have "isClosed r1" by (simp add: delivering_def split: if_splits)
    with True opn rl less.prems(2) show ?thesis
      by (subst readBatches.simps) (simp add: isEOF_def)
  next
    case False
    then have ne: "take (nat b) ls \<noteq> []" using less.prems(2) by simp
    show ?thesis
    proof (cases "nat b \<le> length ls")
      case True
      with st have d: "delivering (drop (nat b) ls) r1" by simp
      have "length (drop (nat b) ls) < length ls" using False less.prems(2) by simp
      from less.hyps [OF this d less.prems(2)] obtain bs r' where
        rb: "readBatches b r1 = ((bs, None), r')" and eof: "isEOF r'"
        and cc: "concat bs = drop (nat b) ls"
        and len: "int (length bs) = (int (length (drop (nat b) ls)) + b - 1) div b"
        and full: "\<forall>i. Suc i < length bs \<longrightarrow> int (length (bs ! i)) = b"
        and nonempty: "\<forall>i. i < length bs \<longrightarrow> bs ! i \<noteq> [] \<and> int (length (bs ! i)) \<le> b"
        by blast
      have eq: "readBatches b r = ((take (nat b) ls # bs, None), r')"
        using opn rl ne rb by (subst readBatches.simps) simp
      have l0: "int (length (take (nat b) ls)) = b" using True less.prems(2) by simp
      have dl: "int (length (drop (nat b) ls)) = int (length ls) - b"
        using True less.prems(2) by simp
      have "(int (length ls) + b - 1) div b = ((int (length ls) - 1) + b) div b"
        by (simp add: algebra_simps)
      also have "\<dots> = (int (length ls) - 1) div b + 1"
        using less.prems(2) div_add_self2 [of b "int (length ls) - 1"] by simp
      finally have len': "int (length (take (nat b) ls # bs)) = (int (length ls) + b - 1) div b"
        using len dl by (simp add: algebra_simps)
      have full': "\<forall>i. Suc i < length (take (nat b) ls # bs)
                      \<longrightarrow> int (length ((take (nat b) ls # bs) ! i)) = b"
        using full l0 by (auto simp: nth_Cons split: nat.splits)
      have nonempty': "\<forall>i. i < length (take (nat b) ls # bs) \<longrightarrow>
          (take (nat b) ls # bs) ! i \<noteq> [] \<and> int (length ((take (nat b) ls # bs) ! i)) \<le> b"
        using nonempty l0 ne by (auto simp: nth_Cons split: nat.splits)
      have "concat (take (nat b) ls # bs) = ls" using cc by simp
      with eq eof len' full' nonempty' show ?thesis by blast
    next
      case False
      with st have c: "isClosed r1" by simp
      from False have t: "take (nat b) ls = ls" by simp
      have eq: "readBatches b r = (([ls], None), r1)"
        using opn rl ne c t by (subst readBatches.simps) (simp add: readBatches_closed)
      have "(int (length ls) - 1) div b = 0"
        using False \<open>ls \<noteq> []\<close> by (intro div_pos_pos_trivial) auto
      moreover have "(int (length ls) + b - 1) div b = ((int (length ls) - 1) + b) div b"
        by (simp add: algebra_simps)
      moreover have "((int (length ls) - 1) + b) div b = (int (length ls) - 1) div b + 1"
        using less.prems(2) div_add_self2 [of b "int (length ls) - 1"] by simp
      ultimately have "(int (length ls) + b - 1) div b = 1" by simp
      with eq c False \<open>ls \<noteq> []\<close> show ?thesis
        by (auto simp: isEOF_def)
    qed
  qed
qed

section \<open>Properties of the sequential reader and the batch adapter\<close>

text \<open>
  C10: for every count \<open>\<le> 0\<close> and every session state whatsoever (never opened,
  open, closed), \<^verbatim>\<open>skipLines(count)\<close> returns 0 and \<^verbatim>\<open>readLines(count)\<close> returns
  the empty array, the state is unchanged and nothing is raised.  The result does not
  depend on the \<^verbatim>\<open>readLine\<close> method \<open>rd\<close> in force, which is never invoked; the
  second and third conjunct are the instance for \<^verbatim>\<open>LineReader\<close>'s own method.
\<close>

theorem C10_nonpositive_count:
  "count \<le> 0 \<Longrightarrow>
     skipLines_with rd count s = (Inr 0, s) \<and> readLines_with rd count s = (Inr [], s) \<and>
     skipLines count r = (Inr 0, r) \<and> readLines count r = (Inr [], r)"
  by (simp add: skipLines_with_def readLines_with_def skipLines_def readLines_def)

theorem C10_nonpositive_count_witness:
  "(-2::int) \<le> 0 \<and>
   skipLines (-2) (LineReader [Line ''a'']) = (Inr 0, LineReader [Line ''a'']) \<and>
   readLines (-2) (LineReader [Line ''a'']) = (Inr [], LineReader [Line ''a''])"
  using C10_nonpositive_count [of "-2" readLine "LineReader [Line ''a'']" "LineReader [Line ''a'']"]
  by simp

text \<open>
  C2: for a file of \<open>N\<close> lines, \<^verbatim>\<open>open()\<close> succeeds and \<open>N + 1\<close> calls of
  \<^verbatim>\<open>readLine()\<close> return the \<open>N\<close> lines in file order followed by \<^verbatim>\<open>null\<close>,
  none of them raising; \<^verbatim>\<open>isEOF()\<close> is true afterwards.
\<close>

theorem C2_sequential_read_to_EOF:
  "fst (open_reader (LineReader (map Line ls))) = Inr () \<and>
   fst (readLine_times (length ls + 1) (snd (open_reader (LineReader (map Line ls)))))
     = map (\<lambda>l. Inr (Some l)) ls @ [Inr None] \<and>
   isEOF (snd (readLine_times (length ls + 1) (snd (open_reader (LineReader (map Line ls))))))"
proof -
  from readLine_times_delivering [OF delivering_open, of ls] obtain r' where
    "readLine_times (Suc (length ls)) (snd (open_reader (LineReader (map Line ls))))
       = (map (\<lambda>l. Inr (Some l)) ls @ [Inr None], r')" and "isClosed r'"
    by blast
  moreover have "fst (open_reader (LineReader (map Line ls))) = Inr ()"
    by (simp add: open_reader_def LineReader_def)
  ultimately show ?thesis
    unfolding isEOF_def Suc_eq_plus1 [symmetric] by simp
qed

text \<open>
  C7: on an open session whose cursor still holds the lines \<open>ls\<close>, \<^verbatim>\<open>skipLines(k)\<close>
  raises nothing and returns the number of lines it consumed, \<open>min k (length ls)\<close>
  (so \<open>k\<close> itself when \<open>k \<le> N\<close>, fewer when the stream ends early), and the
  \<^verbatim>\<open>readLine()\<close> after it has the outcome, and leaves the reader, of the last of
  \<open>k + 1\<close> successive \<^verbatim>\<open>readLine()\<close> calls.
\<close>

theorem C7_skipLines_then_readLine:
  "delivering ls r \<Longrightarrow> 0 \<le> k \<Longrightarrow>
     \<exists>r1. skipLines k r = (Inr (min k (int (length ls))), r1) \<and>
          readLine r1 = (last (fst (readLine_times (nat k + 1) r)),
                         snd (readLine_times (nat k + 1) r))"
  using skipLines_loop_delivering [of ls r 0 k 0]
  by (simp add: skipLines_def skipLines_with_def)


theorem C7_skipLines_then_readLine_witness:
  "delivering [''a'', ''b'', ''c''] (snd (open_reader (LineReader (map Line [''a'', ''b'', ''c''])))) \<and>
   (0::int) \<le> 2 \<and>
   (\<exists>r1. skipLines 2 (snd (open_reader (LineReader (map Line [''a'', ''b'', ''c''])))) = (Inr 2, r1) \<and>
         fst (readLine r1) = Inr (Some ''c''))"
proof -
  let ?r = "snd (open_reader (LineReader (map Line [''a'', ''b'', ''c''])))"
  have d: "delivering [''a'', ''b'', ''c''] ?r" by (rule delivering_open)
  have n: "nat 2 + 1 = Suc (Suc (Suc 0))" by simp
  have e: "last (fst (readLine_times (nat 2 + 1) ?r)) = Inr (Some ''c'')"
    unfolding n by (simp add: readLine_def open_reader_def LineReader_def)
  from C7_skipLines_then_readLine [OF d, of 2] e d show ?thesis
    by auto
qed

text \<open>
  C6: on an open session, when the line iterator rejects, \<^verbatim>\<open>readLine()\<close> raises that
  very fault (neither \<^verbatim>\<open>null\<close> nor a second attempt on the iterator) and leaves
  the session closed: \<^verbatim>\<open>isEOF()\<close> is true, the readline handle and the cursor are
  released.
\<close>

theorem C6_fault_closes_session:
  "rl r \<noteq> None \<Longrightarrow> \<not> isClosed r \<Longrightarrow> lineIterator r = Some (Fault e # rest) \<Longrightarrow>
     fst (readLine r) = Inl (IOFault e) \<and>
     isEOF (snd (readLine r)) \<and> rl (snd (readLine r)) = None \<and>
     lineIterator (snd (readLine r)) = None"
  by (simp add: readLine_def close_def isEOF_def)

theorem C6_fault_closes_session_witness:
  "fst (readLine (snd (open_reader (LineReader [Fault ''EIO'', Line ''x''])))) = Inl (IOFault ''EIO'') \<and>
   isEOF (snd (readLine (snd (open_reader (LineReader [Fault ''EIO'', Line ''x'']))))) \<and>
   rl (snd (readLine (snd (open_reader (LineReader [Fault ''EIO'', Line ''x'']))))) = None"
  using C6_fault_closes_session [of "snd (open_reader (LineReader [Fault ''EIO'', Line ''x'']))" "''EIO''" "[Line ''x'']"]
  by (simp add: open_reader_def LineReader_def)

text \<open>
  The second half of C3 fails on the code: after \<^verbatim>\<open>close()\<close>, after exhaustion and
  after a fault, the next \<^verbatim>\<open>readLine()\<close> raises the not-open error instead of
  returning \<^verbatim>\<open>null\<close>, because \<^verbatim>\<open>close()\<close> sets \<^verbatim>\<open>rl\<close> to \<^verbatim>\<open>null\<close> and
  \<^verbatim>\<open>readLine()\<close> tests \<^verbatim>\<open>rl\<close> before \<^verbatim>\<open>isClosed\<close>.
\<close>

theorem C3_closed_session_returns_null_counterexample:
  "fst (readLine (close (snd (open_reader (LineReader [Line ''a'']))))) = Inl NotOpen \<and>
   fst (readLine (snd (readLine (snd (open_reader (LineReader [])))))) = Inl NotOpen \<and>
   fst (readLine (snd (readLine (snd (open_reader (LineReader [Fault ''EIO'']))))))
     = Inl NotOpen"
  by (simp add: readLine_def close_def open_reader_def LineReader_def)

text \<open>
  C3, as the code has it: \<^verbatim>\<open>readLine()\<close> raises the not-open error on a session that
  was never opened, and also on every session whose handle \<^verbatim>\<open>close()\<close> has released,
  whether the close was explicit, came from exhaustion (the call that meets the end
  returns \<^verbatim>\<open>null\<close> and closes) or from an I/O fault (the call that meets the fault
  raises it and closes); the state is left as it was.  It returns \<^verbatim>\<open>null\<close> without
  reading only when the handle is present and the closed flag is set.
\<close>

theorem C3_readLine_needs_handle:
  "readLine (LineReader src) = (Inl NotOpen, LineReader src) \<and>
   (\<not> isClosed r \<longrightarrow> readLine (close r) = (Inl NotOpen, close r)) \<and>
   (delivering [] r \<longrightarrow>
      readLine r = (Inr None, close r) \<and> readLine (close r) = (Inl NotOpen, close r)) \<and>
   (rl r \<noteq> None \<and> \<not> isClosed r \<and> lineIterator r = Some (Fault e # rest) \<longrightarrow>
      readLine r = (Inl (IOFault e), close r) \<and> readLine (close r) = (Inl NotOpen, close r)) \<and>
   (rl r \<noteq> None \<and> isClosed r \<longrightarrow> readLine r = (Inr None, r))"
  by (simp add: readLine_def close_def LineReader_def delivering_def)

theorem C3_readLine_needs_handle_witness:
  "delivering [] (snd (open_reader (LineReader []))) \<and>
   readLine (close (snd (open_reader (LineReader []))))
     = (Inl NotOpen, close (snd (open_reader (LineReader [])))) \<and>
   readLine (close (snd (open_reader (LineReader [Fault ''EIO'']))))
     = (Inl NotOpen, close (snd (open_reader (LineReader [Fault ''EIO''])))) \<and>
   readLine (snd (open_reader (close (LineReader [Line ''a'']))))
     = (Inr None, snd (open_reader (close (LineReader [Line ''a'']))))"
proof -
  have d: "delivering [] (snd (open_reader (LineReader [])))"
    using delivering_open [of "[]"] by simp
  have f: "rl (snd (open_reader (LineReader [Fault ''EIO'']))) \<noteq> None \<and>
           \<not> isClosed (snd (open_reader (LineReader [Fault ''EIO'']))) \<and>
           lineIterator (snd (open_reader (LineReader [Fault ''EIO''])))
             = Some (Fault ''EIO'' # [])"
    by (simp add: open_reader_def LineReader_def)
  have c: "rl (snd (open_reader (close (LineReader [Line ''a''])))) \<noteq> None \<and>
           isClosed (snd (open_reader (close (LineReader [Line ''a'']))))"
    by (simp add: open_reader_def close_def LineReader_def)
  from d C3_readLine_needs_handle [of "[]" "snd (open_reader (LineReader []))"]
  have 1: "readLine (close (snd (open_reader (LineReader []))))
     = (Inl NotOpen, close (snd (open_reader (LineReader []))))" by blast
  from f C3_readLine_needs_handle [of "[]" "snd (open_reader (LineReader [Fault ''EIO'']))" "''EIO''" "[]"]
  have 2: "readLine (close (snd (open_reader (LineReader [Fault ''EIO'']))))
     = (Inl NotOpen, close (snd (open_reader (LineReader [Fault ''EIO'']))))" by blast
  from c C3_readLine_needs_handle [of "[]" "snd (open_reader (close (LineReader [Line ''a''])))"]
  have 3: "readLine (snd (open_reader (close (LineReader [Line ''a'']))))
     = (Inr None, snd (open_reader (close (LineReader [Line ''a'']))))" by blast
  from d 1 2 3 show ?thesis by blast
qed

text \<open>
  The part of C8 about a never-opened session fails on the code: \<^verbatim>\<open>close()\<close> there
  sets the closed flag, so \<^verbatim>\<open>isEOF()\<close> turns from false to true, and a session
  opened after it returns \<^verbatim>\<open>null\<close> where a fresh one returns the first line.
\<close>

theorem C8_close_never_opened_counterexample:
  "close (LineReader []) \<noteq> LineReader [] \<and>
   isEOF (close (LineReader [])) \<and> \<not> isEOF (LineReader []) \<and>
   fst (readLine (snd (open_reader (LineReader [Line ''a''])))) = Inr (Some ''a'') \<and>
   fst (readLine (snd (open_reader (close (LineReader [Line ''a'']))))) = Inr None"
  by (simp add: close_def LineReader_def isEOF_def readLine_def open_reader_def)

text \<open>
  C8, as the code has it: \<^verbatim>\<open>open()\<close> on a session that holds a handle raises the
  already-open error and changes nothing; \<^verbatim>\<open>close()\<close> on a closed session changes
  nothing, and any number of further \<^verbatim>\<open>close()\<close> calls equal one; \<^verbatim>\<open>close()\<close> on a
  never-opened session raises nothing and sets only the closed flag.
\<close>

theorem C8_open_and_close_misuse:
  "(rl r \<noteq> None \<longrightarrow> open_reader r = (Inl AlreadyOpen, r)) \<and>
   (isClosed r \<longrightarrow> close r = r) \<and>
   (close ^^ Suc n) r = close r \<and>
   close (LineReader src) = (LineReader src)\<lparr>isClosed := True\<rparr>"
proof -
  have idem: "close (close q) = close q" for q :: "'a reader_scheme"
    by (simp add: close_def)
  have "(close ^^ Suc n) r = close r"
    by (induction n) (simp_all add: idem)
  then show ?thesis
    by (simp add: open_reader_def close_def LineReader_def)
qed

theorem C8_open_and_close_misuse_witness:
  "open_reader (snd (open_reader (LineReader [Line ''a''])))
     = (Inl AlreadyOpen, snd (open_reader (LineReader [Line ''a'']))) \<and>
   close (close (snd (open_reader (LineReader [Line ''a'']))))
     = close (snd (open_reader (LineReader [Line ''a''])))"
proof -
  have o: "rl (snd (open_reader (LineReader [Line ''a'']))) \<noteq> None"
    by (simp add: open_reader_def LineReader_def)
  have c: "isClosed (close (snd (open_reader (LineReader [Line ''a'']))))"
    by (simp add: open_reader_def LineReader_def close_def)
  from o C8_open_and_close_misuse [of "snd (open_reader (LineReader [Line ''a'']))"]
  have 1: "open_reader (snd (open_reader (LineReader [Line ''a''])))
     = (Inl AlreadyOpen, snd (open_reader (LineReader [Line ''a''])))" by blast
  from c C8_open_and_close_misuse [of "close (snd (open_reader (LineReader [Line ''a''])))"]
  have 2: "close (close (snd (open_reader (LineReader [Line ''a'']))))
     = close (snd (open_reader (LineReader [Line ''a''])))" by blast
  from 1 2 show ?thesis by blast
qed

text \<open>
  C9: over an open reader whose cursor still holds the \<open>N\<close> lines \<open>ls\<close>, and for a batch
  size \<open>b \<ge> 1\<close>, \<^verbatim>\<open>readBatches()\<close> returns normally after yielding
  \<open>\<lceil>N / b\<rceil>\<close> batches whose concatenation is \<open>ls\<close>; every batch but the last has
  exactly \<open>b\<close> lines, no yielded batch is empty (the empty read ends the iteration
  and is not yielded), and the reader is at end of file afterwards.  The
  example of five lines in batches of two follows it.
\<close>

theorem C9_readBatches:
  "delivering ls r \<Longrightarrow> 1 \<le> b \<Longrightarrow>
     \<exists>bs r'. readBatches b r = ((bs, None), r') \<and> isEOF r' \<and> concat bs = ls \<and>
       int (length bs) = (int (length ls) + b - 1) div b \<and>
       (\<forall>i. Suc i < length bs \<longrightarrow> int (length (bs ! i)) = b) \<and>
       (\<forall>i. i < length bs \<longrightarrow> bs ! i \<noteq> [] \<and> int (length (bs ! i)) \<le> b)"
  by (rule readBatches_delivering)

theorem C9_readBatches_witness:
  "delivering [''L1'', ''L2'', ''L3'', ''L4'', ''L5'']
     (snd (open_reader (LineReader (map Line [''L1'', ''L2'', ''L3'', ''L4'', ''L5''])))) \<and>
   (1::int) \<le> 2 \<and>
   fst (readBatches 2 (snd (open_reader (LineReader (map Line [''L1'', ''L2'', ''L3'', ''L4'', ''L5''])))))
     = ([[''L1'', ''L2''], [''L3'', ''L4''], [''L5'']], None) \<and>
   (\<exists>bs r'. readBatches 2 (snd (open_reader (LineReader (map Line [''L1'', ''L2'', ''L3'', ''L4'', ''L5'']))))
        = ((bs, None), r') \<and> isEOF r' \<and> int (length bs) = 3)"
proof -
  let ?r = "snd (open_reader (LineReader (map Line [''L1'', ''L2'', ''L3'', ''L4'', ''L5''])))"
  have d: "delivering [''L1'', ''L2'', ''L3'', ''L4'', ''L5''] ?r" by (rule delivering_open)
  have e: "fst (readBatches 2 ?r) = ([[''L1'', ''L2''], [''L3'', ''L4''], [''L5'']], None)"
    by (simp add: readBatches.simps readLines_def readLines_with_def readLine_def
        open_reader_def LineReader_def isEOF_def close_def)
  from C9_readBatches [OF d, of 2] obtain bs r' where
    "readBatches 2 ?r = ((bs, None), r')" "isEOF r'"
    "int (length bs) = (int (length [''L1'', ''L2'', ''L3'', ''L4'', ''L5'']) + 2 - 1) div 2"
    by auto
  then have "\<exists>bs r'. readBatches 2 ?r = ((bs, None), r') \<and> isEOF r' \<and> int (length bs) = 3"
    by simp
  with d e show ?thesis by simp
qed

section \<open>Facts about the indexed reader\<close>

lemma set_fold_delete: "set (fold AList.delete ks c) \<subseteq> set c"
proof (induction ks arbitrary: c)
  case Nil
  show ?case by simp
next
  case (Cons k ks)
  have "set (fold AList.delete ks (AList.delete k c)) \<subseteq> set (AList.delete k c)"
    by (rule Cons.IH)
  also have "\<dots> \<subseteq> set c" by (auto simp: AList.delete_eq)
  finally show ?case by simp
qed

lemma cache_agrees_subset: "cache_agrees ls c \<Longrightarrow> set c' \<subseteq> set c \<Longrightarrow> cache_agrees ls c'"
  by (auto simp: cache_agrees_def)

lemma set_update_subset: "set (AList.update k v c) \<subseteq> insert (k, v) (set c)"
  by (induction c) auto

lemma cache_agrees_update:
  "cache_agrees ls c \<Longrightarrow> 1 \<le> k \<Longrightarrow> k \<le> int (length ls) \<Longrightarrow>
     cache_agrees ls (AList.update k (ls ! nat (k - 1)) c)"
proof -
  assume a: "cache_agrees ls c" and k: "1 \<le> k" "k \<le> int (length ls)"
  have "set (AList.update k (ls ! nat (k - 1)) c) \<subseteq> insert (k, ls ! nat (k - 1)) (set c)"
    by (rule set_update_subset)
  with a k show ?thesis
    unfolding cache_agrees_def by blast
qed

lemma manageCache_fields:
  "source (manageCache s) = source s" "rl (manageCache s) = rl s"
  "lineIterator (manageCache s) = lineIterator s" "isClosed (manageCache s) = isClosed s"
  "linePointer (manageCache s) = linePointer s" "cacheSize (manageCache s) = cacheSize s"
  "set (cache (manageCache s)) \<subseteq> set (cache s)"
  by (simp_all add: manageCache_def Let_def set_fold_delete)

lemma consistent_manageCache: "consistent ls s \<Longrightarrow> consistent ls (manageCache s)"
  unfolding consistent_def
  by (auto simp: manageCache_fields intro: cache_agrees_subset [OF _ manageCache_fields(7)])


lemma enhanced_readLine_not_open: "rl s = None \<Longrightarrow> enhanced_readLine s = (Inl NotOpen, s)"
  by (simp add: enhanced_readLine_def readLine_not_open)

lemma enhanced_readLine_end:
  assumes "consistent ls s" "rl s \<noteq> None" "linePointer s = int (length ls)"
  shows "enhanced_readLine s = (Inr None, close s)"
    and "consistent ls (close s)" and "rl (close s) = None"
proof -
  from assms have d: "delivering [] s"
    by (simp add: consistent_def delivering_def)
  then show "enhanced_readLine s = (Inr None, close s)"
    by (simp add: enhanced_readLine_def readLine_delivering_Nil)
  from assms show "consistent ls (close s)"
    by (simp add: consistent_def close_def)
  from d show "rl (close s) = None"
    by (simp add: rl_close_delivering)
qed

lemma enhanced_readLine_line:
  assumes c: "consistent ls s" and o: "rl s \<noteq> None" and p: "linePointer s < int (length ls)"
  shows "\<exists>s'. enhanced_readLine s = (Inr (Some (ls ! nat (linePointer s))), s') \<and>
              consistent ls s' \<and> rl s' \<noteq> None \<and> linePointer s' = linePointer s + 1"
proof -
  let ?p = "nat (linePointer s)"
  let ?l = "ls ! ?p"
  from c have p0: "0 \<le> linePointer s" by (simp add: consistent_def)
  with p have lt: "?p < length ls" by simp
  then have dr: "drop ?p ls = ?l # drop (Suc ?p) ls"
    by (simp add: Cons_nth_drop_Suc)
  from c o have "delivering (drop ?p ls) s"
    by (simp add: consistent_def delivering_def)
  then have d: "delivering (?l # drop (Suc ?p) ls) s" by (simp only: dr)
  let ?s1 = "s\<lparr>lineIterator := Some (map Line (drop (Suc ?p) ls)), currentLine := Some ?l\<rparr>"
  let ?s2 = "?s1\<lparr>linePointer := linePointer s + 1\<rparr>"
  let ?s3 = "?s2\<lparr>cache := AList.update (linePointer s + 1) ?l (cache s)\<rparr>"
  have rd: "readLine s = (Inr (Some ?l), ?s1)"
    using d by (rule readLine_delivering_Cons)
  have e: "enhanced_readLine s = (Inr (Some ?l), manageCache ?s3)"
    by (simp add: enhanced_readLine_def rd)
  have sp: "Suc ?p = nat (linePointer s + 1)" using p0 by simp
  have "cache_agrees ls (AList.update (linePointer s + 1) (ls ! nat (linePointer s + 1 - 1)) (cache s))"
    using c p p0 by (intro cache_agrees_update) (simp_all add: consistent_def)
  then have "consistent ls ?s3"
    using c o p p0 by (auto simp: consistent_def sp)
  then have "consistent ls (manageCache ?s3)" by (rule consistent_manageCache)
  moreover have "rl (manageCache ?s3) \<noteq> None" using o by (simp add: manageCache_fields)
  moreover have "linePointer (manageCache ?s3) = linePointer s + 1"
    by (simp add: manageCache_fields)
  ultimately show ?thesis using e by blast
qed

lemma consistent_enhanced_readLine:
  assumes "consistent ls s"
  shows "consistent ls (snd (enhanced_readLine s))"
proof (cases "rl s = None")
  case True
  with assms show ?thesis by (simp add: enhanced_readLine_not_open)
next
  case False
  from assms have "linePointer s \<le> int (length ls)" by (simp add: consistent_def)
  then consider "linePointer s = int (length ls)" | "linePointer s < int (length ls)"
    by linarith
  then show ?thesis
  proof cases
    case 1
    with enhanced_readLine_end [OF assms False] show ?thesis by simp
  next
    case 2
    with enhanced_readLine_line [OF assms False] show ?thesis by auto
  qed
qed


lemma enhanced_skip_loop:
  "rd = enhanced_readLine \<Longrightarrow> consistent ls s \<Longrightarrow>
   skipLines_loop rd count i sk s = (res, s') \<Longrightarrow>
     consistent ls s' \<and>
     ((\<exists>k. res = Inr k) \<and> rl s' \<noteq> None
        \<longrightarrow> linePointer s' = linePointer s + max 0 (count - i)) \<and>
     (rl s \<noteq> None \<and> linePointer s + (count - i) \<le> int (length ls)
        \<longrightarrow> (\<exists>k. res = Inr k) \<and> rl s' \<noteq> None)"
proof (induction rd count i sk s rule: skipLines_loop.induct)
  case (1 rd count i skipped s)
  note rd = \<open>rd = enhanced_readLine\<close>
  note c = \<open>consistent ls s\<close>
  note run = \<open>skipLines_loop rd count i skipped s = (res, s')\<close>
  show ?case
  proof (cases "i < count")
    case False
    with run c show ?thesis by auto
  next
    case True
    show ?thesis
    proof (cases "rl s = None")
      case True
      with \<open>i < count\<close> run rd c show ?thesis
        by (auto simp: enhanced_readLine_not_open)
    next
      case False
      from c have "linePointer s \<le> int (length ls)" by (simp add: consistent_def)
      then consider "linePointer s = int (length ls)" | "linePointer s < int (length ls)"
        by linarith
      then show ?thesis
      proof cases
        case 1
        from enhanced_readLine_end [OF c False 1] \<open>i < count\<close> run rd 1
        show ?thesis by auto
      next
        case 2
        from enhanced_readLine_line [OF c False 2] obtain s1 where
          e: "enhanced_readLine s = (Inr (Some (ls ! nat (linePointer s))), s1)"
          and c1: "consistent ls s1" and o1: "rl s1 \<noteq> None"
          and p1: "linePointer s1 = linePointer s + 1" by blast
        from \<open>i < count\<close> run rd e
        have run1: "skipLines_loop rd count (i + 1) (skipped + 1) s1 = (res, s')" by simp
        from e rd have e': "(Inr (Some (ls ! nat (linePointer s))), s1) = rd s" by simp
        from "1.IH" [OF \<open>i < count\<close> e' refl refl rd c1 run1] p1 o1 \<open>i < count\<close>
        show ?thesis by auto
      qed
    qed
  qed
qed

lemma enhanced_skipLines_consistent:
  assumes "consistent ls s" "enhanced_skipLines count s = (res, s')"
  shows "consistent ls s'"
    and "res = Inr k \<Longrightarrow> rl s' \<noteq> None \<Longrightarrow> linePointer s' = linePointer s + max 0 count"
    and "rl s \<noteq> None \<Longrightarrow> linePointer s + count \<le> int (length ls)
           \<Longrightarrow> (\<exists>k. res = Inr k) \<and> rl s' \<noteq> None"
  using enhanced_skip_loop [OF refl assms(1), of count 0 0 res s'] assms(2)
  by (auto simp: enhanced_skipLines_def skipLines_with_def simp del: skipLines_loop.simps)


lemma enhanced_readLine_Some:
  assumes c: "consistent ls s" and e: "enhanced_readLine s = (Inr (Some l), s')"
  shows "rl s \<noteq> None \<and> linePointer s < int (length ls) \<and> l = ls ! nat (linePointer s)"
proof -
  have o: "rl s \<noteq> None"
  proof
    assume "rl s = None"
    with e show False by (simp add: enhanced_readLine_not_open)
  qed
  have p: "linePointer s < int (length ls)"
  proof (rule ccontr)
    assume "\<not> linePointer s < int (length ls)"
    with c have "linePointer s = int (length ls)" by (simp add: consistent_def)
    from enhanced_readLine_end(1) [OF c o this] e show False by simp
  qed
  from enhanced_readLine_line [OF c o p] e have "l = ls ! nat (linePointer s)" by auto
  with o p show ?thesis by simp
qed

lemma restart_consistent:
  assumes "consistent ls s"
  shows "\<exists>s'. restart s = (Inr (), s') \<and> consistent ls (s'\<lparr>linePointer := 0\<rparr>) \<and> rl s' \<noteq> None"
proof -
  from assms have "rl (close s) = None"
    by (auto simp: consistent_def close_def split: if_splits)
  then have "restart s = (Inr (), (close s)\<lparr>isClosed := False, rl := Some Interface,
                                   lineIterator := Some (source (close s))\<rparr>)"
    by (simp add: restart_def open_reader_def)
  moreover from assms have "consistent ls ((close s)\<lparr>isClosed := False, rl := Some Interface,
      lineIterator := Some (source (close s)), linePointer := 0\<rparr>)"
    by (simp add: consistent_def close_def)
  ultimately show ?thesis by simp
qed

lemma cache_hit:
  assumes "cache_agrees ls c" "n \<in> set (map fst c)"
  shows "map_of c n = Some (ls ! nat (n - 1))"
proof -
  from assms(2) obtain v where v: "map_of c n = Some v"
    by (cases "map_of c n") (auto simp: map_of_eq_None_iff)
  then have "(n, v) \<in> set c" by (rule map_of_SomeD)
  with assms(1) have "v = ls ! nat (n - 1)" by (auto simp: cache_agrees_def)
  with v show ?thesis by simp
qed

lemma readLineAt_consistent:
  assumes c: "consistent ls s"
  shows "consistent ls (snd (readLineAt n s)) \<and>
         (1 \<le> n \<and> n \<le> int (length ls) \<longrightarrow> fst (readLineAt n s) = Inr (Some (ls ! nat (n - 1))))"
proof (cases "n < 1")
  case True
  with c show ?thesis by (simp add: readLineAt_def)
next
  case n1: False
  show ?thesis
  proof (cases "n \<in> set (map fst (cache s))")
    case True
    from c have "cache_agrees ls (cache s)" by (simp add: consistent_def)
    from cache_hit [OF this True] n1 True c show ?thesis
      by (simp add: readLineAt_def)
  next
    case miss: False
    let ?pos = "if n \<le> linePointer s
                then (case restart s of
                        (Inl e, s') \<Rightarrow> (Inl e, s')
                      | (Inr u, s') \<Rightarrow> (Inr u, s'\<lparr>linePointer := 0\<rparr>))
                else (Inr (), s)"
    have "\<exists>s1. ?pos = (Inr (), s1) \<and> consistent ls s1 \<and> linePointer s1 < n \<and>
                (n \<le> int (length ls) \<longrightarrow> rl s1 \<noteq> None)"
    proof (cases "n \<le> linePointer s")
      case True
      from restart_consistent [OF c] obtain s' where
        "restart s = (Inr (), s')" "consistent ls (s'\<lparr>linePointer := 0\<rparr>)" "rl s' \<noteq> None"
        by blast
      with True n1 show ?thesis by simp
    next
      case False
      with c show ?thesis by (auto simp: consistent_def)
    qed
    then obtain s1 where pos: "?pos = (Inr (), s1)" and c1: "consistent ls s1"
      and p1: "linePointer s1 < n" and o1: "n \<le> int (length ls) \<Longrightarrow> rl s1 \<noteq> None"
      by blast
    obtain res s2 where sk: "enhanced_skipLines (n - linePointer s1 - 1) s1 = (res, s2)"
      by (cases "enhanced_skipLines (n - linePointer s1 - 1) s1")
    note skip = enhanced_skipLines_consistent [OF c1 sk]
    have c2: "consistent ls s2" by (rule skip(1))
    have unfold: "readLineAt n s =
        (case res of
           Inl e \<Rightarrow> (Inl e, s2)
         | Inr k \<Rightarrow>
             (case enhanced_readLine s2 of
                (Inl e, s3) \<Rightarrow> (Inl e, s3)
              | (Inr None, s3) \<Rightarrow> (Inr None, s3)
              | (Inr (Some line), s3) \<Rightarrow>
                  (Inr (Some line),
                   manageCache (s3\<lparr>cache := AList.update n line (cache s3)\<rparr>))))"
      using n1 miss pos sk
      by (simp add: readLineAt_def split: sum.splits)
    have cons: "consistent ls (snd (readLineAt n s))"
    proof (cases res)
      case (Inl e)
      with unfold c2 show ?thesis by simp
    next
      case (Inr k)
      obtain x s3 where e: "enhanced_readLine s2 = (x, s3)"
        by (cases "enhanced_readLine s2")
      from consistent_enhanced_readLine [OF c2] e have c3: "consistent ls s3" by simp
      show ?thesis
      proof (cases x)
        case (Inl err)
        with unfold Inr e c3 show ?thesis by simp
      next
        case x: (Inr v)
        show ?thesis
        proof (cases v)
          case None
          with unfold Inr e x c3 show ?thesis by simp
        next
          case (Some line)
          from enhanced_readLine_Some [OF c2] e x Some
          have o2: "rl s2 \<noteq> None" and p2: "linePointer s2 < int (length ls)"
            and l: "line = ls ! nat (linePointer s2)" by auto
          from skip(2) [OF Inr o2] p1 have p2': "linePointer s2 = n - 1" by simp
          have "cache_agrees ls (AList.update n (ls ! nat (n - 1)) (cache s3))"
            using c3 n1 p2 p2' by (intro cache_agrees_update) (simp_all add: consistent_def)
          with c3 have "consistent ls (s3\<lparr>cache := AList.update n line (cache s3)\<rparr>)"
            using l p2' by (simp add: consistent_def)
          then have "consistent ls (manageCache (s3\<lparr>cache := AList.update n line (cache s3)\<rparr>))"
            by (rule consistent_manageCache)
          with unfold Inr e x Some show ?thesis by simp
        qed
      qed
    qed
    have "fst (readLineAt n s) = Inr (Some (ls ! nat (n - 1)))"
      if n: "1 \<le> n" "n \<le> int (length ls)"
    proof -
      from p1 n(2) have "linePointer s1 + (n - linePointer s1 - 1) \<le> int (length ls)" by simp
      from skip(3) [OF o1 [OF n(2)] this] obtain k where
        res: "res = Inr k" and o2: "rl s2 \<noteq> None" by blast
      from skip(2) [OF res o2] p1 have p2: "linePointer s2 = n - 1" by simp
      with n have lt: "linePointer s2 < int (length ls)" by simp
      from enhanced_readLine_line [OF c2 o2 lt] p2 obtain s3 where
        "enhanced_readLine s2 = (Inr (Some (ls ! nat (n - 1))), s3)" by auto
      with unfold res show ?thesis by simp
    qed
    with cons show ?thesis by blast
  qed
qed


lemma consistent_initial:
  "consistent ls (snd (open_reader (EnhancedLineReader (map Line ls) cacheSizeOption)))"
  by (simp add: consistent_def open_reader_def EnhancedLineReader_def cache_agrees_def)

lemma consistent_run_call: "consistent ls s \<Longrightarrow> consistent ls (run_call c s)"
  by (cases c) (simp_all add: consistent_enhanced_readLine readLineAt_consistent)

lemma consistent_run_calls: "consistent ls s \<Longrightarrow> consistent ls (run_calls cs s)"
  unfolding run_calls_def
  by (induction cs arbitrary: s) (simp_all add: consistent_run_call)

lemma readLine_times_prefix:
  "delivering ls r \<Longrightarrow> m \<le> length ls \<Longrightarrow>
     fst (readLine_times m r) = map (\<lambda>l. Inr (Some l)) (take m ls)"
proof (induction m arbitrary: ls r)
  case 0
  show ?case by simp
next
  case (Suc m)
  then obtain l ls' where ls: "ls = l # ls'" by (cases ls) auto
  let ?r' = "r\<lparr>lineIterator := Some (map Line ls'), currentLine := Some l\<rparr>"
  from Suc.prems(1) have rd: "readLine r = (Inr (Some l), ?r')"
    unfolding ls by (rule readLine_delivering_Cons)
  from Suc.prems(1) have d: "delivering ls' ?r'"
    unfolding ls by (rule delivering_step)
  from Suc.prems(2) have "m \<le> length ls'" by (simp add: ls)
  from Suc.IH [OF d this] rd show ?case
    by (simp add: ls case_prod_beta)
qed

lemma readLine_times_last:
  assumes "delivering ls r" "1 \<le> m" "m \<le> length ls"
  shows "last (fst (readLine_times m r)) = Inr (Some (ls ! (m - 1)))"
proof -
  from assms obtain k where k: "m = Suc k" "k < length ls" by (cases m) auto
  then have "take m ls = take k ls @ [ls ! k]" by (simp add: take_Suc_conv_app_nth)
  with readLine_times_prefix [OF assms(1,3)] k show ?thesis by simp
qed

text \<open>
  The cache and its capacity.  From a capacity of 2 on, every \<^verbatim>\<open>readLine()\<close> and
  \<^verbatim>\<open>readLineAt(n)\<close> leaves at most \<^verbatim>\<open>cacheSize\<close> entries
  (\<open>cache_within_capacity\<close>), and an eviction removes the numerically lowest
  \<open>\<lfloor>cacheSize / 2\<rfloor>\<close> keys and keeps the others (\<open>manageCache_evicts_lowest\<close>).
\<close>

lemma fold_delete_keys:
  "map fst (fold AList.delete ks c) = filter (\<lambda>k. k \<notin> set ks) (map fst c)"
proof (induction ks arbitrary: c)
  case Nil
  show ?case by simp
next
  case (Cons k ks)
  have "map fst (fold AList.delete (k # ks) c) = map fst (fold AList.delete ks (AList.delete k c))"
    by simp
  also have "\<dots> = filter (\<lambda>x. x \<notin> set ks) (map fst (AList.delete k c))"
    by (rule Cons.IH)
  also have "\<dots> = filter (\<lambda>x. x \<notin> set (k # ks)) (map fst c)"
    by (simp add: delete_keys removeAll_filter_not_eq conj_commute eq_commute)
  finally show ?case .
qed

lemma length_filter_removed:
  assumes "distinct keys" "distinct ks" "set ks \<subseteq> set keys"
  shows "length (filter (\<lambda>k. k \<notin> set ks) keys) + length ks = length keys"
proof -
  have "distinct (filter (\<lambda>k. k \<in> set ks) keys)" using assms(1) by simp
  moreover have "set (filter (\<lambda>k. k \<in> set ks) keys) = set ks" using assms(3) by auto
  ultimately have "length (filter (\<lambda>k. k \<in> set ks) keys) = length ks"
    using assms(2) by (metis distinct_card)
  with sum_length_filter_compl [of "\<lambda>k. k \<in> set ks" keys] show ?thesis by simp
qed

lemma manageCache_bounded:
  assumes d: "distinct (map fst (cache s))" and c: "2 \<le> cacheSize s"
    and l: "int (length (cache s)) \<le> cacheSize s + 1"
  shows "cache_bounded (cacheSize s) (manageCache s)"
proof (cases "int (length (cache s)) > cacheSize s")
  case False
  with d show ?thesis by (simp add: manageCache_def cache_bounded_def)
next
  case True
  let ?keys = "map fst (cache s)"
  let ?rm = "take (nat (cacheSize s div 2)) (sort ?keys)"
  have m: "manageCache s = s\<lparr>cache := fold AList.delete ?rm (cache s)\<rparr>"
    using True c by (simp add: manageCache_def slice0_def Let_def)
  have k: "map fst (cache (manageCache s)) = filter (\<lambda>k. k \<notin> set ?rm) ?keys"
    by (simp add: m fold_delete_keys)
  have drm: "distinct ?rm" using d by simp
  have srm: "set ?rm \<subseteq> set ?keys" using set_take_subset [of _ "sort ?keys"] by simp
  have lrm: "length ?rm = nat (cacheSize s div 2)" using True c by simp
  from length_filter_removed [OF d drm srm] lrm
  have "length (map fst (cache (manageCache s))) + nat (cacheSize s div 2) = length ?keys"
    by (simp only: k)
  then have "int (length (cache (manageCache s))) \<le> cacheSize s"
    using l c by simp
  moreover have "distinct (map fst (cache (manageCache s)))"
    using d by (simp only: k distinct_filter)
  ultimately show ?thesis by (simp add: cache_bounded_def manageCache_fields)
qed

lemma length_update_le: "length (AList.update k v c) \<le> Suc (length c)"
  by (induction c) auto

lemma cache_bounded_set:
  assumes "cache_bounded c s" "2 \<le> c"
  shows "cache_bounded c (manageCache (s\<lparr>cache := AList.update k v (cache s)\<rparr>))"
proof -
  let ?s = "s\<lparr>cache := AList.update k v (cache s)\<rparr>"
  from assms have "distinct (map fst (cache ?s))" "2 \<le> cacheSize ?s"
    by (simp_all add: cache_bounded_def distinct_update)
  moreover from assms length_update_le [of k v "cache s"]
  have "int (length (cache ?s)) \<le> cacheSize ?s + 1"
    by (simp add: cache_bounded_def)
  ultimately have "cache_bounded (cacheSize ?s) (manageCache ?s)" by (rule manageCache_bounded)
  with assms(1) show ?thesis by (simp add: cache_bounded_def)
qed

lemma readLine_cache:
  "cache (snd (readLine s)) = cache s" "cacheSize (snd (readLine s)) = cacheSize s"
  by (simp_all add: readLine_def close_def split: option.splits list.splits event.splits)

lemma cache_bounded_readLine: "cache_bounded c s \<Longrightarrow> cache_bounded c (snd (readLine s))"
  by (simp add: cache_bounded_def readLine_cache)

lemma cache_bounded_enhanced_readLine:
  assumes "cache_bounded c s" "2 \<le> c"
  shows "cache_bounded c (snd (enhanced_readLine s))"
proof -
  obtain x s' where rd: "readLine s = (x, s')" by (cases "readLine s")
  with cache_bounded_readLine [OF assms(1)] have b: "cache_bounded c s'" by simp
  then have b1: "cache_bounded c (s'\<lparr>linePointer := linePointer s' + 1\<rparr>)"
    by (simp add: cache_bounded_def)
  show ?thesis
  proof (cases x)
    case (Inl e)
    with rd b show ?thesis by (simp add: enhanced_readLine_def)
  next
    case (Inr v)
    show ?thesis
    proof (cases v)
      case None
      with Inr rd b show ?thesis by (simp add: enhanced_readLine_def)
    next
      case (Some line)
      from cache_bounded_set [OF b1 assms(2), of "linePointer s' + 1" line] Inr Some rd
      show ?thesis by (simp add: enhanced_readLine_def)
    qed
  qed
qed

lemma skipLines_loop_invariant:
  "(\<forall>s. P s \<longrightarrow> P (snd (rd s))) \<Longrightarrow> P s \<Longrightarrow> P (snd (skipLines_loop rd count i sk s))"
proof (induction rd count i sk s rule: skipLines_loop.induct)
  case (1 rd count i skipped s)
  show ?case
  proof (cases "i < count")
    case False
    with "1.prems" show ?thesis by simp
  next
    case True
    obtain x s' where rd: "rd s = (x, s')" by (cases "rd s")
    from "1.prems" rd have p: "P s'" by auto
    show ?thesis
    proof (cases x)
      case (Inl e)
      with True rd p show ?thesis by simp
    next
      case (Inr v)
      show ?thesis
      proof (cases v)
        case None
        with Inr True rd p show ?thesis by simp
      next
        case (Some line)
        from "1.IH" [OF True rd [symmetric] Inr Some "1.prems"(1) p] Inr Some True rd
        show ?thesis by simp
      qed
    qed
  qed
qed

lemma cache_bounded_restart: "cache_bounded c s \<Longrightarrow> cache_bounded c (snd (restart s))"
  by (simp add: cache_bounded_def restart_def open_reader_def close_def)

lemma cache_bounded_readLineAt:
  assumes b: "cache_bounded c s" and c: "2 \<le> c"
  shows "cache_bounded c (snd (readLineAt n s))"
proof -
  let ?pos = "if n \<le> linePointer s
              then (case restart s of
                      (Inl e, s') \<Rightarrow> (Inl e, s')
                    | (Inr u, s') \<Rightarrow> (Inr u, s'\<lparr>linePointer := 0\<rparr>))
              else (Inr (), s)"
  obtain y s1 where pos: "?pos = (y, s1)" by (cases ?pos)
  have b1: "cache_bounded c s1"
  proof (cases "n \<le> linePointer s")
    case True
    obtain z s' where r: "restart s = (z, s')" by (cases "restart s")
    with cache_bounded_restart [OF b] have "cache_bounded c s'" by simp
    then have "cache_bounded c (s'\<lparr>linePointer := 0\<rparr>)" by (simp add: cache_bounded_def)
    with True r pos \<open>cache_bounded c s'\<close> show ?thesis by (auto split: sum.splits)
  next
    case False
    with pos b show ?thesis by simp
  qed
  obtain res s2 where sk: "enhanced_skipLines (n - linePointer s1 - 1) s1 = (res, s2)"
    by (cases "enhanced_skipLines (n - linePointer s1 - 1) s1")
  have "cache_bounded c (snd (skipLines_loop enhanced_readLine (n - linePointer s1 - 1) 0 0 s1))"
    using b1 c by (intro skipLines_loop_invariant [where P = "cache_bounded c"])
      (simp_all add: cache_bounded_enhanced_readLine)
  with sk have b2: "cache_bounded c s2"
    by (simp add: enhanced_skipLines_def skipLines_with_def del: skipLines_loop.simps)
  obtain x s3 where e: "enhanced_readLine s2 = (x, s3)" by (cases "enhanced_readLine s2")
  with cache_bounded_enhanced_readLine [OF b2 c] have b3: "cache_bounded c s3" by simp
  have b4: "cache_bounded c (manageCache (s3\<lparr>cache := AList.update n line (cache s3)\<rparr>))" for line
    using b3 c by (rule cache_bounded_set)
  show ?thesis
    using b b1 b2 b3 b4 pos sk e
    by (auto simp: readLineAt_def split: sum.splits option.splits simp del: skipLines_loop.simps)
qed

lemma cache_bounded_run_calls:
  "cache_bounded c s \<Longrightarrow> 2 \<le> c \<Longrightarrow> cache_bounded c (run_calls cs s)"
  unfolding run_calls_def
proof (induction cs arbitrary: s)
  case Nil
  then show ?case by simp
next
  case (Cons a cs)
  have "cache_bounded c (run_call a s)"
    using Cons.prems
    by (cases a) (simp_all add: cache_bounded_enhanced_readLine cache_bounded_readLineAt)
  from Cons.IH [OF this Cons.prems(2)] show ?case by simp
qed

lemma cache_within_capacity:
  assumes "2 \<le> c"
  shows "int (length (cache (run_calls cs (snd (open_reader (EnhancedLineReader src (Some c)))))))
           \<le> c"
proof -
  from assms have "cache_bounded c (snd (open_reader (EnhancedLineReader src (Some c))))"
    by (simp add: cache_bounded_def open_reader_def EnhancedLineReader_def)
  from cache_bounded_run_calls [OF this assms] show ?thesis
    by (simp add: cache_bounded_def)
qed


lemma manageCache_evicts_lowest:
  assumes over: "int (length (cache s)) > cacheSize s" and c: "0 \<le> cacheSize s"
  defines "removed \<equiv> take (nat (cacheSize s div 2)) (sort (map fst (cache s)))"
  shows "set (map fst (cache (manageCache s))) = set (map fst (cache s)) - set removed"
    and "a \<in> set removed \<Longrightarrow> b \<in> set (map fst (cache (manageCache s))) \<Longrightarrow> a < b"
proof -
  let ?xs = "sort (map fst (cache s))"
  let ?n = "nat (cacheSize s div 2)"
  have m: "manageCache s = s\<lparr>cache := fold AList.delete removed (cache s)\<rparr>"
    using over c by (simp add: manageCache_def slice0_def Let_def removed_def)
  then have k: "map fst (cache (manageCache s)) = filter (\<lambda>k. k \<notin> set removed) (map fst (cache s))"
    by (simp add: fold_delete_keys)
  then show eq: "set (map fst (cache (manageCache s))) = set (map fst (cache s)) - set removed"
    by auto
  assume a: "a \<in> set removed" and b: "b \<in> set (map fst (cache (manageCache s)))"
  from b eq have "b \<in> set ?xs" "b \<notin> set (take ?n ?xs)" by (simp_all add: removed_def)
  with set_append [of "take ?n ?xs" "drop ?n ?xs"] have bd: "b \<in> set (drop ?n ?xs)"
    by (simp del: set_append)
  have "sorted (take ?n ?xs @ drop ?n ?xs)" by simp
  with a bd have "a \<le> b" unfolding sorted_append removed_def by blast
  moreover from a \<open>b \<notin> set (take ?n ?xs)\<close> have "a \<noteq> b" by (auto simp: removed_def)
  ultimately show "a < b" by simp
qed

section \<open>Properties of the indexed reader\<close>

text \<open>
  C1: take a file of \<open>N\<close> lines \<open>ls\<close>, an indexed reader over it with any
  \<^verbatim>\<open>cacheSize\<close> option, opened, and then any sequence \<open>cs\<close> of \<^verbatim>\<open>readLine()\<close> and
  \<^verbatim>\<open>readLineAt(k)\<close> calls (any order, any arguments, raising or not, overflowing the
  cache or not).  For \<open>1 \<le> n \<le> N\<close> the next \<^verbatim>\<open>readLineAt(n)\<close> returns line \<open>n\<close> of
  the file, which is what the \<open>n\<close>-th of \<open>n\<close> sequential \<^verbatim>\<open>readLine()\<close> calls on a
  freshly opened plain reader returns.
\<close>

theorem C1_readLineAt_matches_sequential:
  "1 \<le> n \<Longrightarrow> n \<le> int (length ls) \<Longrightarrow>
     fst (readLineAt n (run_calls cs
            (snd (open_reader (EnhancedLineReader (map Line ls) cacheSizeOption)))))
       = Inr (Some (ls ! nat (n - 1))) \<and>
     last (fst (readLine_times (nat n) (snd (open_reader (LineReader (map Line ls))))))
       = Inr (Some (ls ! nat (n - 1)))"
proof -
  assume n: "1 \<le> n" "n \<le> int (length ls)"
  have "consistent ls (run_calls cs
          (snd (open_reader (EnhancedLineReader (map Line ls) cacheSizeOption))))"
    by (intro consistent_run_calls consistent_initial)
  from readLineAt_consistent [OF this, of n] n
  have "fst (readLineAt n (run_calls cs
            (snd (open_reader (EnhancedLineReader (map Line ls) cacheSizeOption)))))
       = Inr (Some (ls ! nat (n - 1)))" by simp
  moreover from n have "1 \<le> nat n" "nat n \<le> length ls" by simp_all
  from readLine_times_last [OF delivering_open this]
  have "last (fst (readLine_times (nat n) (snd (open_reader (LineReader (map Line ls))))))
       = Inr (Some (ls ! nat (n - 1)))"
    using n by (simp add: nat_diff_distrib)
  ultimately show ?thesis by simp
qed

theorem C1_readLineAt_matches_sequential_witness:
  "(1::int) \<le> 2 \<and> 2 \<le> int (length TEST_LINES) \<and>
   fst (readLineAt 2 (run_calls [ReadLineAt 5, ReadLine, ReadLineAt 1, ReadLineAt 9, ReadLine]
          (snd (open_reader (EnhancedLineReader (map Line TEST_LINES) (Some 2))))))
     = Inr (Some ''Bravo'')"
  using C1_readLineAt_matches_sequential [of 2 TEST_LINES
      "[ReadLineAt 5, ReadLine, ReadLineAt 1, ReadLineAt 9, ReadLine]" "Some 2"]
  by (simp add: TEST_LINES_def)

text \<open>
  The example C4 fails on the code at its second step: \<^verbatim>\<open>readLineAt(3)\<close> reads lines
  1 to 3 through the overridden \<^verbatim>\<open>readLine()\<close>, which caches each of them, so
  \<^verbatim>\<open>readLineAt(1)\<close> is a cache hit and the counter is not 2 afterwards.
\<close>

theorem C4_example_counterexample:
  "getCurrentLineNumber (snd (readLineAt 1 (snd (readLineAt 3
      (snd (open_reader (EnhancedLineReader (map Line TEST_LINES) None))))))) \<noteq> 2"
  by (simp add: getCurrentLineNumber_def TEST_LINES_def readLineAt_def enhanced_skipLines_def
      skipLines_with_def enhanced_readLine_def readLine_def manageCache_def open_reader_def
      EnhancedLineReader_def)

text \<open>
  C4, as the code has it: on a freshly opened indexed reader (default options) over the
  five lines, \<^verbatim>\<open>readLineAt(3)\<close> returns \<^verbatim>\<open>Charlie\<close> and leaves the counter at 3;
  then \<^verbatim>\<open>readLineAt(1)\<close> returns \<^verbatim>\<open>Alpha\<close> and leaves the reader exactly as it was
  (no restart, counter still 3); then \<^verbatim>\<open>readLineAt(2)\<close> returns \<^verbatim>\<open>Bravo\<close>, again
  leaving the reader as it was.
\<close>

theorem C4_example:
  "fst (readLineAt 3 (snd (open_reader (EnhancedLineReader (map Line TEST_LINES) None))))
     = Inr (Some ''Charlie'') \<and>
   getCurrentLineNumber
     (snd (readLineAt 3 (snd (open_reader (EnhancedLineReader (map Line TEST_LINES) None))))) = 3 \<and>
   readLineAt 1 (snd (readLineAt 3 (snd (open_reader (EnhancedLineReader (map Line TEST_LINES) None)))))
     = (Inr (Some ''Alpha''),
        snd (readLineAt 3 (snd (open_reader (EnhancedLineReader (map Line TEST_LINES) None))))) \<and>
   readLineAt 2 (snd (readLineAt 1 (snd (readLineAt 3
       (snd (open_reader (EnhancedLineReader (map Line TEST_LINES) None)))))))
     = (Inr (Some ''Bravo''),
        snd (readLineAt 3 (snd (open_reader (EnhancedLineReader (map Line TEST_LINES) None)))))"
  by (simp add: getCurrentLineNumber_def TEST_LINES_def readLineAt_def enhanced_skipLines_def
      skipLines_with_def enhanced_readLine_def readLine_def manageCache_def open_reader_def
      EnhancedLineReader_def)

text \<open>
  C5 at \<^verbatim>\<open>cacheSize = 1\<close>: \<^verbatim>\<open>manageCache()\<close> removes \<open>\<lfloor>1 / 2\<rfloor> = 0\<close> keys, so after
  two \<^verbatim>\<open>readLine()\<close> calls the cache holds two entries, the lowest key still among
  them.
\<close>

theorem C5_capacity_one_unbounded:
  "cacheSize (snd (enhanced_readLine (snd (enhanced_readLine
      (snd (open_reader (EnhancedLineReader (map Line TEST_LINES) (Some 1)))))))) = 1 \<and>
   cache (snd (enhanced_readLine (snd (enhanced_readLine
      (snd (open_reader (EnhancedLineReader (map Line TEST_LINES) (Some 1))))))))
     = [(1, ''Alpha''), (2, ''Bravo'')]"
  by (simp add: TEST_LINES_def enhanced_readLine_def readLine_def manageCache_def open_reader_def
      EnhancedLineReader_def slice0_def)

end
